theory Spec2Isabelle
  imports Main
begin

section \<open>Python values, errors and dictionaries\<close>

text \<open>
  The settings page of OpenWebRX (\<^verbatim>\<open>owrx/controllers/settings.py\<close>) groups form inputs
  into sections, renders them from the configuration and, on a POST, parses the submitted
  body back into values that are written to the configuration.

  Values that an input hands to the configuration are Python objects; the constructors
  below cover what the form inputs produce. \<open>PNone\<close> is Python's \<^verbatim>\<open>None\<close>.
  Python strings are represented by HOL strings (the bytes of their UTF-8 encoding); all
  delimiters the code looks at are ASCII.
\<close>

datatype py_value =
    PNone
  | PBool bool
  | PInt int
  | PStr string
  | PList "py_value list"

text \<open>The exceptions that can leave \<^verbatim>\<open>processFormData\<close>.\<close>

datatype error =
    UnicodeDecodeError
  | ValidationError string

text \<open>
  A Python \<^verbatim>\<open>dict\<close> keeps its keys in insertion order, so it is an association list with
  distinct keys. \<^verbatim>\<open>d[k] = v\<close> replaces the value of an existing key in place and appends a
  new key at the end.
\<close>

type_synonym 'v dict = "(string \<times> 'v) list"

fun dict_setitem :: "'v dict \<Rightarrow> string \<Rightarrow> 'v \<Rightarrow> 'v dict" where
  "dict_setitem [] k v = [(k, v)]"
| "dict_setitem ((k', v') # d) k v =
     (if k' = k then (k', v) # d else (k', v') # dict_setitem d k v)"

text \<open>
  A dict comprehension \<^verbatim>\<open>{k: v for k, v in items}\<close>, continued from the dictionary built
  so far: every pair is stored with \<^verbatim>\<open>d[k] = v\<close>, in order.
\<close>

fun dict_update :: "'v dict \<Rightarrow> (string \<times> 'v) list \<Rightarrow> 'v dict" where
  "dict_update d [] = d"
| "dict_update d ((k, v) # kvs) = dict_update (dict_setitem d k v) kvs"

section \<open>Decoding the request body: \<^verbatim>\<open>urllib.parse.parse_qs\<close>\<close>

text \<open>
  \<^verbatim>\<open>processFormData\<close> calls the standard library's \<^verbatim>\<open>parse_qs(text, keep_blank_values=True)\<close>.
  The definitions follow CPython's \<^verbatim>\<open>urllib/parse.py\<close> (version 3.11) for a \<^verbatim>\<open>str\<close>
  argument with the defaults \<^verbatim>\<open>strict_parsing=False\<close>, \<^verbatim>\<open>max_num_fields=None\<close> and
  \<^verbatim>\<open>separator='&'\<close>.
\<close>

text \<open>\<^verbatim>\<open>s.split(sep)\<close> for a one-character separator.\<close>

fun str_split :: "char \<Rightarrow> string \<Rightarrow> string list" where
  "str_split sep [] = [[]]"
| "str_split sep (c # cs) =
     (if c = sep then [] # str_split sep cs
      else (case str_split sep cs of
              [] \<Rightarrow> [[c]]
            | w # ws \<Rightarrow> (c # w) # ws))"

text \<open>\<^verbatim>\<open>s.partition(sep)\<close>: the text before the first separator, the separator, the rest;
  or \<^verbatim>\<open>(s, '', '')\<close> when there is none.\<close>

definition str_partition :: "char \<Rightarrow> string \<Rightarrow> string \<times> string \<times> string" where
  "str_partition sep s =
     (let rest = dropWhile (\<lambda>c. c \<noteq> sep) s
      in if rest = [] then (s, [], [])
         else (takeWhile (\<lambda>c. c \<noteq> sep) s, [sep], tl rest))"

text \<open>\<^verbatim>\<open>s.replace(old, new)\<close> for single characters.\<close>

definition str_replace :: "char \<Rightarrow> char \<Rightarrow> string \<Rightarrow> string" where
  "str_replace old new s = map (\<lambda>c. if c = old then new else c) s"

text \<open>
  \<^verbatim>\<open>unquote\<close> returns a string without \<^verbatim>\<open>%\<close> as it is. Otherwise it replaces the
  \<^verbatim>\<open>%xx\<close> escapes and decodes the bytes as UTF-8 with replacement characters; that part
  is the parameter \<open>pct\<close>, on which nothing is assumed.
\<close>

definition unquote :: "(string \<Rightarrow> string) \<Rightarrow> string \<Rightarrow> string" where
  "unquote pct s = (if CHR ''%'' \<in> set s then pct s else s)"

definition unquote_plus :: "(string \<Rightarrow> string) \<Rightarrow> string \<Rightarrow> string" where
  "unquote_plus pct s = unquote pct (str_replace (CHR ''+'') (CHR '' '') s)"

text \<open>The body of the loop of \<^verbatim>\<open>parse_qsl\<close>: the pairs one field contributes.\<close>

definition parse_field :: "(string \<Rightarrow> string) \<Rightarrow> bool \<Rightarrow> string \<Rightarrow> (string \<times> string) list" where
  "parse_field pct keep_blank_values name_value =
     (if name_value \<noteq> [] then
        (case str_partition (CHR ''='') name_value of
           (name, has_eq, val) \<Rightarrow>
             if val \<noteq> [] \<or> keep_blank_values
             then [(unquote_plus pct name, unquote_plus pct val)]
             else [])
      else [])"

definition parse_qsl :: "(string \<Rightarrow> string) \<Rightarrow> string \<Rightarrow> bool \<Rightarrow> (string \<times> string) list" where
  "parse_qsl pct qs keep_blank_values =
     (if qs = [] then []
      else concat (map (parse_field pct keep_blank_values) (str_split (CHR ''&'') qs)))"

text \<open>The loop of \<^verbatim>\<open>parse_qs\<close>: a repeated name appends to the list it already has.\<close>

fun parse_qs_pairs :: "string list dict \<Rightarrow> (string \<times> string) list \<Rightarrow> string list dict" where
  "parse_qs_pairs parsed_result [] = parsed_result"
| "parse_qs_pairs parsed_result ((name, val) # pairs) =
     parse_qs_pairs
       (case map_of parsed_result name of
          Some vals \<Rightarrow> dict_setitem parsed_result name (vals @ [val])
        | None \<Rightarrow> dict_setitem parsed_result name [val])
       pairs"

definition parse_qs :: "(string \<Rightarrow> string) \<Rightarrow> string \<Rightarrow> bool \<Rightarrow> string list dict" where
  "parse_qs pct qs keep_blank_values = parse_qs_pairs [] (parse_qsl pct qs keep_blank_values)"

section \<open>Inputs and sections\<close>

text \<open>
  The form inputs (\<^verbatim>\<open>owrx.form\<close>) are used through two methods only:
  \<^verbatim>\<open>render(config)\<close> gives markup and \<^verbatim>\<open>parse(data)\<close> gives a dictionary of values or raises.
  An input is therefore a record of these two functions. \<^verbatim>\<open>parse\<close> is handed the form data
  and nothing else, so it is a function of the form data; it does not touch the
  configuration.
\<close>

type_synonym formdata = "string list dict"

type_synonym config_map = "string \<rightharpoonup> py_value"

record input =
  render :: "config_map \<Rightarrow> string"
  parse :: "formdata \<Rightarrow> error + py_value dict"

record Section =
  title :: string
  inputs :: "input list"

definition Section_init :: "string \<Rightarrow> input list \<Rightarrow> Section" where
  "Section_init t is = \<lparr>title = t, inputs = is\<rparr>"

definition render_inputs :: "Section \<Rightarrow> config_map \<Rightarrow> string" where
  "render_inputs sec cfg = concat (map (\<lambda>i. render i cfg) (inputs sec))"

text \<open>
  The template of \<^verbatim>\<open>Section.render\<close> is a literal with the two fields \<^verbatim>\<open>{title}\<close> and
  \<^verbatim>\<open>{inputs}\<close>; \<^verbatim>\<open>format\<close> puts the two strings in their places. These are the three
  parts of the literal around the fields, one line of the source per line.
\<close>

definition section_open :: string where
  \<open>section_open =
     ''\<newline>            <div class="col-12 settings-section">''
     @ ''\<newline>                <h3 class="settings-header">''
     @ ''\<newline>                    ''\<close>

definition section_middle :: string where
  \<open>section_middle =
     ''\<newline>                </h3>''
     @ ''\<newline>                ''\<close>

definition section_close :: string where
  \<open>section_close =
     ''\<newline>            </div>''
     @ ''\<newline>        ''\<close>

definition Section_render :: "Section \<Rightarrow> config_map \<Rightarrow> string" where
  "Section_render sec cfg =
     section_open @ title sec @ section_middle @ render_inputs sec cfg @ section_close"

text \<open>
  \<^verbatim>\<open>{k: v for i in self.inputs for k, v in i.parse(data).items()}\<close>: the inputs are parsed
  in order, each result is merged into the dictionary built so far, and an exception of
  any \<^verbatim>\<open>parse\<close> leaves the comprehension at once.
\<close>

fun parse_inputs :: "py_value dict \<Rightarrow> input list \<Rightarrow> formdata \<Rightarrow> error + py_value dict" where
  "parse_inputs acc [] data = Inr acc"
| "parse_inputs acc (i # is) data =
     (case parse i data of
        Inl e \<Rightarrow> Inl e
      | Inr r \<Rightarrow> parse_inputs (dict_update acc r) is data)"

definition Section_parse :: "Section \<Rightarrow> formdata \<Rightarrow> error + py_value dict" where
  "Section_parse sec data = parse_inputs [] (inputs sec) data"

section \<open>The configuration and the write path\<close>

text \<open>
  The configuration object (\<^verbatim>\<open>owrx.config.Config\<close>) is used as a dictionary that can be
  stored: \<^verbatim>\<open>k in config\<close>, \<^verbatim>\<open>del config[k]\<close>, \<^verbatim>\<open>config[k] = v\<close> and \<^verbatim>\<open>Config.store()\<close>.
  The state holds its contents and a log of everything the request does to it and to the
  response, in order.
\<close>

datatype event =
    SetItem string py_value
  | DelItem string
  | Store
  | Redirect string

record state =
  config :: config_map
  log :: "event list"

definition Config_contains :: "state \<Rightarrow> string \<Rightarrow> bool" where
  "Config_contains st k = (config st k \<noteq> None)"

definition Config_delitem :: "string \<Rightarrow> state \<Rightarrow> state" where
  "Config_delitem k st = st\<lparr>config := (config st)(k := None), log := log st @ [DelItem k]\<rparr>"

definition Config_setitem :: "string \<Rightarrow> py_value \<Rightarrow> state \<Rightarrow> state" where
  "Config_setitem k v st = st\<lparr>config := (config st)(k \<mapsto> v), log := log st @ [SetItem k v]\<rparr>"

definition Config_store :: "state \<Rightarrow> state" where
  "Config_store st = st\<lparr>log := log st @ [Store]\<rparr>"

definition send_redirect :: "string \<Rightarrow> state \<Rightarrow> state" where
  "send_redirect url st = st\<lparr>log := log st @ [Redirect url]\<rparr>"

text \<open>The \<^verbatim>\<open>for k, v in data.items()\<close> loop of \<^verbatim>\<open>processFormData\<close>.\<close>

fun apply_items :: "(string \<times> py_value) list \<Rightarrow> state \<Rightarrow> state" where
  "apply_items [] st = st"
| "apply_items ((k, v) # kvs) st =
     apply_items kvs
       (if v = PNone then (if Config_contains st k then Config_delitem k st else st)
        else Config_setitem k v st)"

text \<open>The comprehension over the sections in \<^verbatim>\<open>processFormData\<close>.\<close>

fun parse_sections :: "py_value dict \<Rightarrow> Section list \<Rightarrow> formdata \<Rightarrow> error + py_value dict" where
  "parse_sections acc [] data = Inr acc"
| "parse_sections acc (s # ss) data =
     (case Section_parse s data of
        Inl e \<Rightarrow> Inl e
      | Inr r \<Rightarrow> parse_sections (dict_update acc r) ss data)"

text \<open>
  The request body as \<^verbatim>\<open>self.get_body().decode("utf-8")\<close> sees it: bytes that are not UTF-8
  raise, anything else is the text.
\<close>

datatype body = Undecodable | Text string

text \<open>
  \<^verbatim>\<open>processFormData\<close>. The result is the outcome (\<open>Inl\<close> the exception that leaves the
  method, \<open>Inr ()\<close> a normal return) together with the state the request leaves behind.
\<close>

definition processFormData ::
    "(string \<Rightarrow> string) \<Rightarrow> Section list \<Rightarrow> body \<Rightarrow> state \<Rightarrow> (error + unit) \<times> state" where
  "processFormData pct sections b st =
     (case b of
        Undecodable \<Rightarrow> (Inl UnicodeDecodeError, st)
      | Text qs \<Rightarrow>
          (case parse_sections [] sections (parse_qs pct qs True) of
             Inl e \<Rightarrow> (Inl e, st)
           | Inr data \<Rightarrow>
               (Inr (), send_redirect ''/generalsettings'' (Config_store (apply_items data st)))))"

section \<open>Example inputs\<close>

text \<open>
  The input classes of \<^verbatim>\<open>owrx.form\<close> (\<^verbatim>\<open>TextInput\<close>, \<^verbatim>\<open>NumberInput\<close>, \<^verbatim>\<open>CheckboxInput\<close>)
  are not part of the source. Three \<^verbatim>\<open>parse\<close> methods are written here after sections 4.1
  and 4.2 of the specification, to have concrete schemas in the examples; the theorems
  hold for every input.
\<close>

text \<open>The submitted strings of a key, none when the key is absent.\<close>

definition raw_values :: "formdata \<Rightarrow> string \<Rightarrow> string list" where
  "raw_values data key = (case map_of data key of None \<Rightarrow> [] | Some vals \<Rightarrow> vals)"

text \<open>
  Modelled from the spec: \<^verbatim>\<open>TextInput.parse\<close> (\<^verbatim>\<open>owrx.form\<close> is missing). The result holds
  exactly the input's key; the default converter takes the first submitted string, and an
  empty sequence is the deletion marker.
\<close>

definition TextInput_parse :: "string \<Rightarrow> formdata \<Rightarrow> error + py_value dict" where
  "TextInput_parse key data =
     (case raw_values data key of
        [] \<Rightarrow> Inr [(key, PNone)]
      | s # _ \<Rightarrow> Inr [(key, PStr s)])"

text \<open>Decimal numerals, with an optional minus sign.\<close>

definition digits_value :: "string \<Rightarrow> int option" where
  "digits_value s =
     (if s \<noteq> [] \<and> list_all (\<lambda>c. c \<in> set ''0123456789'') s
      then Some (foldl (\<lambda>n c. 10 * n + (of_char c - 48)) 0 s)
      else None)"

definition int_of_string :: "string \<Rightarrow> int option" where
  "int_of_string s =
     (case s of
        [] \<Rightarrow> None
      | c # cs \<Rightarrow> if c = CHR ''-'' then map_option uminus (digits_value cs) else digits_value s)"

text \<open>
  Modelled from the spec: \<^verbatim>\<open>NumberInput.parse\<close> (\<^verbatim>\<open>owrx.form\<close> is missing). The single
  submitted string is read as a number; text that is not a number is a validation error,
  and an empty sequence is the deletion marker.
\<close>

definition NumberInput_parse :: "string \<Rightarrow> formdata \<Rightarrow> error + py_value dict" where
  "NumberInput_parse key data =
     (case raw_values data key of
        [] \<Rightarrow> Inr [(key, PNone)]
      | s # _ \<Rightarrow>
          (case int_of_string s of
             None \<Rightarrow> Inl (ValidationError key)
           | Some n \<Rightarrow> Inr [(key, PInt n)]))"

text \<open>
  Modelled from the spec: \<^verbatim>\<open>CheckboxInput.parse\<close> (\<^verbatim>\<open>owrx.form\<close> is missing). A key that was
  submitted, with any value, is true; an absent key is the deletion marker.
\<close>

definition CheckboxInput_parse :: "string \<Rightarrow> formdata \<Rightarrow> error + py_value dict" where
  "CheckboxInput_parse key data =
     Inr [(key, if map_of data key \<noteq> None then PBool True else PNone)]"

text \<open>An input with the given \<^verbatim>\<open>parse\<close> whose markup is just its key.\<close>

definition example_input :: "string \<Rightarrow> (string \<Rightarrow> formdata \<Rightarrow> error + py_value dict) \<Rightarrow> input" where
  "example_input key p = \<lparr>render = (\<lambda>cfg. key), parse = p key\<rparr>"

text \<open>A cut of the schema of \<^verbatim>\<open>GeneralSettingsController.sections\<close>.\<close>

definition receiver_asl :: input where
  "receiver_asl = example_input ''receiver_asl'' NumberInput_parse"

definition receiver_information :: Section where
  "receiver_information =
     Section_init ''Receiver information''
       [example_input ''receiver_name'' TextInput_parse, receiver_asl]"

definition example_sections :: "Section list" where
  "example_sections =
     [receiver_information,
      Section_init ''Waterfall settings''
        [example_input ''fft_fps'' NumberInput_parse],
      Section_init ''APRS settings''
        [example_input ''aprs_igate_enabled'' CheckboxInput_parse]]"

text \<open>A configuration to start from.\<close>

definition example_state :: state where
  "example_state =
     \<lparr>config = [''receiver_name'' \<mapsto> PStr ''Old'', ''aprs_igate_enabled'' \<mapsto> PBool True],
      log = []\<rparr>"

text \<open>A schema in which two inputs, in different sections, claim the key \<^verbatim>\<open>fft_fps\<close>.\<close>

definition clashing_sections :: "Section list" where
  "clashing_sections =
     [Section_init ''Waterfall settings''
        [example_input ''fft_fps'' NumberInput_parse],
      Section_init ''Display settings''
        [example_input ''fft_fps'' TextInput_parse]]"

text \<open>The identity stands for the escape decoding where no body has an escape.\<close>

definition no_escapes :: "string \<Rightarrow> string" where
  "no_escapes s = s"

section \<open>Evaluating the examples\<close>

lemmas example_defs =
  example_sections_def receiver_information_def receiver_asl_def
  example_input_def Section_init_def TextInput_parse_def NumberInput_parse_def
  CheckboxInput_parse_def raw_values_def int_of_string_def digits_value_def no_escapes_def
  example_state_def

lemmas parse_qs_defs =
  parse_qs_def parse_qsl_def parse_field_def str_partition_def str_replace_def
  unquote_def unquote_plus_def

section \<open>Dictionaries\<close>

lemma map_of_dict_setitem: "map_of (dict_setitem d k v) = (map_of d)(k \<mapsto> v)"
  by (induction d) (auto simp: fun_eq_iff)

lemma keys_dict_setitem: "fst ` set (dict_setitem d k v) = insert k (fst ` set d)"
proof (induction d)
  case Nil
  then show ?case by simp
next
  case (Cons p d)
  obtain k' v' where p: "p = (k', v')" by (cases p)
  show ?case
  proof (cases "k' = k")
    case True
    then show ?thesis by (simp add: p)
  next
    case False
    with Cons.IH show ?thesis by (simp add: p insert_commute)
  qed
qed

lemma distinct_dict_setitem:
  "distinct (map fst d) \<Longrightarrow> distinct (map fst (dict_setitem d k v))"
proof (induction d)
  case Nil
  then show ?case by simp
next
  case (Cons p d)
  obtain k' v' where p: "p = (k', v')" by (cases p)
  show ?case
  proof (cases "k' = k")
    case True
    with Cons.prems p show ?thesis by simp
  next
    case False
    have "k' \<notin> fst ` set (dict_setitem d k v)"
      using Cons.prems p False by (simp add: keys_dict_setitem)
    with Cons p False show ?thesis by simp
  qed
qed

lemma set_dict_setitem: "set (dict_setitem d k v) \<subseteq> insert (k, v) (set d)"
proof (induction d)
  case Nil
  then show ?case by simp
next
  case (Cons p d)
  obtain k' v' where p: "p = (k', v')" by (cases p)
  show ?case
  proof (cases "k' = k")
    case True
    then show ?thesis by (auto simp: p)
  next
    case False
    with Cons.IH show ?thesis by (auto simp: p)
  qed
qed

lemma dict_setitem_fresh: "k \<notin> fst ` set d \<Longrightarrow> dict_setitem d k v = d @ [(k, v)]"
  by (induction d) auto

lemma map_of_dict_update: "map_of (dict_update d kvs) = map_of d ++ map_of (rev kvs)"
proof (induction kvs arbitrary: d)
  case Nil
  then show ?case by simp
next
  case (Cons p kvs)
  obtain k v where p: "p = (k, v)" by (cases p)
  have "map_of (dict_update d (p # kvs)) = (map_of d)(k \<mapsto> v) ++ map_of (rev kvs)"
    by (simp only: p dict_update.simps Cons.IH map_of_dict_setitem)
  also have "\<dots> = map_of d ++ map_of (rev (p # kvs))"
    by (auto simp: p fun_eq_iff map_add_def split: option.splits)
  finally show ?case .
qed

lemma distinct_dict_update:
  "distinct (map fst d) \<Longrightarrow> distinct (map fst (dict_update d kvs))"
  by (induction kvs arbitrary: d) (auto simp: distinct_dict_setitem)

lemma keys_dict_update: "fst ` set (dict_update d kvs) = fst ` set d \<union> fst ` set kvs"
proof (induction kvs arbitrary: d)
  case Nil
  then show ?case by simp
next
  case (Cons p kvs)
  obtain k v where p: "p = (k, v)" by (cases p)
  have "fst ` set (dict_update d (p # kvs)) = insert k (fst ` set d) \<union> fst ` set kvs"
    by (simp only: p dict_update.simps Cons.IH keys_dict_setitem)
  then show ?case by (simp add: p)
qed

lemma set_dict_update: "set (dict_update d kvs) \<subseteq> set d \<union> set kvs"
proof (induction kvs arbitrary: d)
  case Nil
  then show ?case by simp
next
  case (Cons p kvs)
  obtain k v where p: "p = (k, v)" by (cases p)
  have "set (dict_update (dict_setitem d k v) kvs) \<subseteq> set (dict_setitem d k v) \<union> set kvs"
    by (rule Cons.IH)
  also have "\<dots> \<subseteq> insert (k, v) (set d) \<union> set kvs"
    using set_dict_setitem [of d k v] by blast
  finally show ?case by (auto simp: p)
qed

lemma dict_update_append: "dict_update d (xs @ ys) = dict_update (dict_update d xs) ys"
  by (induction xs arbitrary: d) auto

lemma dict_update_fresh:
  "distinct (map fst (d @ kvs)) \<Longrightarrow> dict_update d kvs = d @ kvs"
proof (induction kvs arbitrary: d)
  case Nil
  then show ?case by simp
next
  case (Cons p kvs)
  obtain k v where p: "p = (k, v)" by (cases p)
  from Cons.prems p have fresh: "k \<notin> fst ` set d" by auto
  from Cons.prems p have "distinct (map fst ((d @ [(k, v)]) @ kvs))" by auto
  from Cons.IH [OF this] fresh show ?case by (simp add: p dict_setitem_fresh)
qed

lemma map_of_rev_distinct: "distinct (map fst xs) \<Longrightarrow> map_of (rev xs) = map_of xs"
proof (induction xs)
  case Nil
  then show ?case by simp
next
  case (Cons p xs)
  obtain k v where p: "p = (k, v)" by (cases p)
  from Cons.prems p have "map_of xs k = None"
    by (simp add: map_of_eq_None_iff)
  with Cons p show ?case
    by (auto simp: fun_eq_iff map_add_def split: option.splits)
qed

section \<open>Parsing the inputs of a schema\<close>

lemma parse_inputs_raises:
  assumes "i \<in> set is" and "parse i data = Inl e"
  shows "\<exists>e'. parse_inputs acc is data = Inl e'"
  using assms
proof (induction "is" arbitrary: acc)
  case Nil
  then show ?case by simp
next
  case (Cons j js)
  show ?case
  proof (cases "parse j data")
    case (Inl e')
    then show ?thesis by simp
  next
    case (Inr r)
    with Cons.prems have "i \<in> set js" by auto
    with Cons.IH Cons.prems(2) Inr show ?thesis by simp
  qed
qed

lemma parse_sections_raises:
  assumes "s \<in> set ss" and "i \<in> set (inputs s)" and "parse i data = Inl e"
  shows "\<exists>e'. parse_sections acc ss data = Inl e'"
  using assms
proof (induction ss arbitrary: acc)
  case Nil
  then show ?case by simp
next
  case (Cons t ts)
  show ?case
  proof (cases "Section_parse t data")
    case (Inl e')
    then show ?thesis by simp
  next
    case (Inr r)
    have "s \<noteq> t"
    proof
      assume "s = t"
      with Cons.prems(2,3) obtain e' where "Section_parse t data = Inl e'"
        unfolding Section_parse_def using parse_inputs_raises by blast
      with Inr show False by simp
    qed
    with Cons.prems(1) have "s \<in> set ts" by simp
    with Cons.IH Cons.prems(2,3) Inr show ?thesis by simp
  qed
qed

lemma parse_inputs_append:
  "parse_inputs acc (xs @ ys) data =
     (case parse_inputs acc xs data of Inl e \<Rightarrow> Inl e | Inr d \<Rightarrow> parse_inputs d ys data)"
  by (induction xs arbitrary: acc) (auto split: sum.splits)

lemma parse_inputs_error_acc:
  "parse_inputs acc is data = Inl e \<longleftrightarrow> parse_inputs acc' is data = Inl e"
  by (induction "is" arbitrary: acc acc') (auto split: sum.splits)

lemma parse_inputs_all_ok:
  assumes "\<forall>i\<in>set is. \<exists>r. parse i data = Inr r"
  shows "parse_inputs acc is data =
           Inr (dict_update acc (concat (map (\<lambda>i. projr (parse i data)) is)))"
  using assms
proof (induction "is" arbitrary: acc)
  case Nil
  then show ?case by simp
next
  case (Cons i "is")
  then obtain r where r: "parse i data = Inr r" by auto
  from Cons.prems have "\<forall>j\<in>set is. \<exists>r. parse j data = Inr r" by simp
  from Cons.IH [OF this, of "dict_update acc r"] r show ?case
    by (simp add: dict_update_append)
qed

lemma parse_inputs_first_error:
  assumes "\<forall>j\<in>set pre. \<exists>r. parse j data = Inr r" and "parse i data = Inl e"
  shows "parse_inputs acc (pre @ i # post) data = Inl e"
  using assms by (induction pre arbitrary: acc) auto

lemma parse_sections_error_flat:
  "parse_sections acc ss data = Inl e \<longleftrightarrow>
   parse_inputs [] (concat (map inputs ss)) data = Inl e"
proof (induction ss arbitrary: acc)
  case Nil
  then show ?case by simp
next
  case (Cons s ss)
  show ?case
  proof (cases "parse_inputs [] (inputs s) data")
    case (Inl e')
    then show ?thesis by (simp add: Section_parse_def parse_inputs_append)
  next
    case (Inr r)
    have "parse_sections acc (s # ss) data = Inl e \<longleftrightarrow>
          parse_inputs [] (concat (map inputs ss)) data = Inl e"
      using Cons.IH [of "dict_update acc r"] Inr by (simp add: Section_parse_def)
    also have "\<dots> \<longleftrightarrow> parse_inputs r (concat (map inputs ss)) data = Inl e"
      by (rule parse_inputs_error_acc)
    finally show ?thesis using Inr by (simp add: parse_inputs_append)
  qed
qed

lemma parse_sections_all_ok:
  assumes "\<forall>i\<in>set (concat (map inputs ss)). \<exists>r. parse i data = Inr r"
  shows "\<exists>d. parse_sections acc ss data = Inr d \<and>
           map_of d = map_of acc ++
             map_of (rev (concat (map (\<lambda>i. projr (parse i data)) (concat (map inputs ss)))))"
  using assms
proof (induction ss arbitrary: acc)
  case Nil
  then show ?case by simp
next
  case (Cons s ss)
  let ?items = "\<lambda>is. concat (map (\<lambda>i. projr (parse i data)) is)"
  let ?r = "dict_update [] (?items (inputs s))"
  from Cons.prems have "\<forall>i\<in>set (inputs s). \<exists>r. parse i data = Inr r" by simp
  then have s: "Section_parse s data = Inr ?r"
    unfolding Section_parse_def by (rule parse_inputs_all_ok)
  from Cons.prems have "\<forall>i\<in>set (concat (map inputs ss)). \<exists>r. parse i data = Inr r"
    by simp
  from Cons.IH [OF this, of "dict_update acc ?r"]
  obtain d where d: "parse_sections (dict_update acc ?r) ss data = Inr d"
    and m: "map_of d = map_of (dict_update acc ?r) ++
              map_of (rev (?items (concat (map inputs ss))))"
    by blast
  have "distinct (map fst ?r)" by (simp add: distinct_dict_update)
  then have "map_of (rev ?r) = map_of (rev (?items (inputs s)))"
    by (simp add: map_of_rev_distinct map_of_dict_update)
  then have "map_of d = map_of acc ++
               map_of (rev (?items (concat (map inputs (s # ss)))))"
    by (simp add: m map_of_dict_update)
  with s d show ?case by simp
qed

lemma distinct_parse_sections:
  "distinct (map fst acc) \<Longrightarrow> parse_sections acc ss data = Inr d \<Longrightarrow> distinct (map fst d)"
proof (induction ss arbitrary: acc)
  case Nil
  then show ?case by simp
next
  case (Cons s ss)
  from Cons.prems(2) obtain r where "Section_parse s data = Inr r"
    and "parse_sections (dict_update acc r) ss data = Inr d"
    by (auto split: sum.splits)
  moreover from Cons.prems(1) have "distinct (map fst (dict_update acc r))"
    by (rule distinct_dict_update)
  ultimately show ?case using Cons.IH by blast
qed

section \<open>The commit loop\<close>

lemma config_apply_items:
  "distinct (map fst data) \<Longrightarrow>
   config (apply_items data st) k =
     (case map_of data k of
        None \<Rightarrow> config st k
      | Some v \<Rightarrow> if v = PNone then None else Some v)"
proof (induction data arbitrary: st)
  case Nil
  then show ?case by simp
next
  case (Cons p data)
  obtain k' v' where p: "p = (k', v')" by (cases p)
  from Cons.prems p have fresh: "map_of data k' = None"
    by (simp add: map_of_eq_None_iff)
  from Cons.prems have "distinct (map fst data)" by simp
  note IH = Cons.IH [OF this]
  show ?case
    using fresh
    by (auto simp: p IH Config_contains_def Config_delitem_def Config_setitem_def
        split: option.splits)
qed

section \<open>The events of the commit loop\<close>

lemma log_apply_items:
  "distinct (map fst data) \<Longrightarrow>
   log (apply_items data st) =
     log st @ concat (map (\<lambda>(k, v). if v = PNone
                                    then (if config st k \<noteq> None then [DelItem k] else [])
                                    else [SetItem k v]) data)"
proof (induction data arbitrary: st)
  case Nil
  then show ?case by simp
next
  case (Cons p data)
  obtain k' v' where p: "p = (k', v')" by (cases p)
  let ?st1 = "if v' = PNone then (if Config_contains st k' then Config_delitem k' st else st)
              else Config_setitem k' v' st"
  let ?f = "\<lambda>c (k, v). if v = PNone then (if c k \<noteq> None then [DelItem k] else [])
                         else [SetItem k v]"
  from Cons.prems have d: "distinct (map fst data)" by simp
  have other: "config ?st1 k = config st k" if "k \<noteq> k'" for k
    using that by (simp add: Config_delitem_def Config_setitem_def)
  have "map (?f (config ?st1)) data = map (?f (config st)) data"
  proof (rule map_cong [OF refl])
    fix x assume x: "x \<in> set data"
    obtain k v where kv: "x = (k, v)" by (cases x)
    from x kv Cons.prems p have "k \<noteq> k'" by force
    from other [OF this] show "?f (config ?st1) x = ?f (config st) x"
      by (simp only: kv prod.case)
  qed
  moreover have "log ?st1 = log st @ ?f (config st) (k', v')"
    by (simp add: Config_contains_def Config_delitem_def Config_setitem_def)
  moreover have "log (apply_items (p # data) st) = log ?st1 @ concat (map (?f (config ?st1)) data)"
    using Cons.IH [OF d, of ?st1] by (simp only: p apply_items.simps)
  ultimately show ?case by (simp only: p list.map concat.simps append_assoc)
qed

lemma apply_items_events:
  assumes "distinct (map fst data)"
  shows "\<exists>evs. log (apply_items data st) = log st @ evs
           \<and> (\<forall>k. DelItem k \<in> set evs \<longleftrightarrow> map_of data k = Some PNone \<and> config st k \<noteq> None)
           \<and> (\<forall>k v. SetItem k v \<in> set evs \<longleftrightarrow> map_of data k = Some v \<and> v \<noteq> PNone)
           \<and> Store \<notin> set evs \<and> (\<forall>u. Redirect u \<notin> set evs)"
proof -
  let ?f = "\<lambda>(k, v). if v = PNone then (if config st k \<noteq> None then [DelItem k] else [])
                      else [SetItem k v]"
  let ?evs = "concat (map ?f data)"
  have mem: "e \<in> set ?evs \<longleftrightarrow> (\<exists>k v. map_of data k = Some v \<and> e \<in> set (?f (k, v)))" for e
    using assms by (auto simp: map_of_eq_Some_iff)
  have "\<forall>k. DelItem k \<in> set ?evs \<longleftrightarrow> map_of data k = Some PNone \<and> config st k \<noteq> None"
    unfolding mem by (auto split: if_splits)
  moreover have "\<forall>k v. SetItem k v \<in> set ?evs \<longleftrightarrow> map_of data k = Some v \<and> v \<noteq> PNone"
    unfolding mem by (auto split: if_splits)
  moreover have "Store \<notin> set ?evs"
    unfolding mem by (auto split: if_splits)
  moreover have "\<forall>u. Redirect u \<notin> set ?evs"
    unfolding mem by (auto split: if_splits)
  ultimately show ?thesis using log_apply_items [OF assms, of st] by blast
qed

section \<open>The last binding of a key\<close>

lemma map_of_rev_items_last:
  assumes "distinct (map fst r)" and "(k, v) \<in> set r"
    and "\<forall>j\<in>set after. k \<notin> fst ` set (f j)"
  shows "map_of (rev (concat (map f before) @ r @ concat (map f after))) k = Some v"
proof -
  have "k \<notin> fst ` set (rev (concat (map f after)))"
    using assms(3) by auto
  then have "map_of (rev (concat (map f after))) k = None"
    by (rule map_of_eq_None_iff [THEN iffD2])
  moreover have "map_of (rev r) k = Some v"
    using assms(1,2) by (simp add: map_of_rev_distinct)
  ultimately show ?thesis by (simp add: map_add_def)
qed

section \<open>The decoded form data\<close>















section \<open>An exception while parsing leaves the configuration alone\<close>

text \<open>
  C1. If the \<^verbatim>\<open>parse\<close> of any input of the schema raises on the decoded form data, then
  \<^verbatim>\<open>processFormData\<close> ends with an exception and the state is the one it started with: the
  configuration has no key set or deleted, and the log has no new entry, so nothing was
  stored.
\<close>

theorem processFormData_parse_error_no_mutation:
  assumes "s \<in> set sections" and "i \<in> set (inputs s)"
    and "parse i (parse_qs pct qs True) = Inl e"
  shows "\<exists>e'. processFormData pct sections (Text qs) st = (Inl e', st)"
proof -
  obtain e' where "parse_sections [] sections (parse_qs pct qs True) = Inl e'"
    using parse_sections_raises [OF assms] by blast
  then show ?thesis by (simp add: processFormData_def)
qed

theorem processFormData_parse_error_no_mutation_witness:
  "receiver_information \<in> set example_sections
   \<and> receiver_asl \<in> set (inputs receiver_information)
   \<and> parse receiver_asl
        (parse_qs no_escapes ''receiver_name=New&receiver_asl=high&fft_fps=25'' True)
      = Inl (ValidationError ''receiver_asl'')
   \<and> (\<exists>e'. processFormData no_escapes example_sections
          (Text ''receiver_name=New&receiver_asl=high&fft_fps=25'') example_state
        = (Inl e', example_state))"
proof -
  have h1: "receiver_information \<in> set example_sections"
    by (simp add: example_sections_def)
  have h2: "receiver_asl \<in> set (inputs receiver_information)"
    by (simp add: receiver_information_def Section_init_def)
  have h3: "parse receiver_asl
        (parse_qs no_escapes ''receiver_name=New&receiver_asl=high&fft_fps=25'' True)
      = Inl (ValidationError ''receiver_asl'')"
    by (simp add: parse_qs_defs example_defs)
  from processFormData_parse_error_no_mutation [OF h1 h2 h3] h1 h2 h3
  show ?thesis by blast
qed

section \<open>Applying the parsed values\<close>

text \<open>
  C2. For the mapping that the sections parse from a submission, the request's log is the
  mutations of the commit loop, in the order of the mapping, followed by one \<open>Store\<close> and
  the redirect: a key mapped to \<open>PNone\<close> gives a \<open>DelItem\<close> when the key was there and
  nothing otherwise, any other value gives a \<open>SetItem\<close>. Afterwards a key mapped to
  \<open>PNone\<close> is absent, a key mapped to another value holds it, and every other key is as it
  was. The configuration is stored exactly once, after all the mutations.
\<close>

theorem processFormData_applies_delta:
  assumes "parse_sections [] sections (parse_qs pct qs True) = Inr data"
  shows "\<exists>st' muts. processFormData pct sections (Text qs) st = (Inr (), st')
           \<and> log st' = log st @ muts @ [Store, Redirect ''/generalsettings'']
           \<and> muts = concat (map (\<lambda>(k, v). if v = PNone
                                            then (if config st k \<noteq> None then [DelItem k] else [])
                                            else [SetItem k v]) data)
           \<and> (\<forall>e\<in>set muts. (\<exists>k v. e = SetItem k v) \<or> (\<exists>k. e = DelItem k))
           \<and> (\<forall>k. map_of data k = Some PNone \<longrightarrow>
                  config st' k = None
                  \<and> (DelItem k \<in> set muts \<longleftrightarrow> config st k \<noteq> None)
                  \<and> (\<forall>v. SetItem k v \<notin> set muts))
           \<and> (\<forall>k v. map_of data k = Some v \<and> v \<noteq> PNone \<longrightarrow>
                  config st' k = Some v \<and> SetItem k v \<in> set muts \<and> DelItem k \<notin> set muts)
           \<and> (\<forall>k. map_of data k = None \<longrightarrow>
                  config st' k = config st k
                  \<and> DelItem k \<notin> set muts \<and> (\<forall>v. SetItem k v \<notin> set muts))
           \<and> length (filter (\<lambda>e. e = Store) (muts @ [Store, Redirect ''/generalsettings''])) = 1"
proof -
  define muts where
    "muts = concat (map (\<lambda>(k, v). if v = PNone
                                     then (if config st k \<noteq> None then [DelItem k] else [])
                                     else [SetItem k v]) data)"
  have d: "distinct (map fst data)"
    using distinct_parse_sections [OF _ assms] by simp
  have l: "log (apply_items data st) = log st @ muts"
    unfolding muts_def using d by (rule log_apply_items)
  from apply_items_events [OF d, of st] obtain evs where
    l2: "log (apply_items data st) = log st @ evs"
    and del0: "\<forall>k. DelItem k \<in> set evs \<longleftrightarrow> map_of data k = Some PNone \<and> config st k \<noteq> None"
    and set0: "\<forall>k v. SetItem k v \<in> set evs \<longleftrightarrow> map_of data k = Some v \<and> v \<noteq> PNone"
    and store0: "Store \<notin> set evs" and redirect0: "\<forall>u. Redirect u \<notin> set evs"
    by blast
  from l l2 have evs: "evs = muts" by simp
  have del: "DelItem k \<in> set muts \<longleftrightarrow> map_of data k = Some PNone \<and> config st k \<noteq> None" for k
    using del0 unfolding evs by (rule spec)
  have sets: "SetItem k v \<in> set muts \<longleftrightarrow> map_of data k = Some v \<and> v \<noteq> PNone" for k v
    using set0 unfolding evs by blast
  have store: "Store \<notin> set muts"
    using store0 unfolding evs .
  have redirect: "Redirect u \<notin> set muts" for u
    using redirect0 unfolding evs by (rule spec)
  let ?st' = "send_redirect ''/generalsettings'' (Config_store (apply_items data st))"
  have r: "processFormData pct sections (Text qs) st = (Inr (), ?st')"
    using assms by (simp add: processFormData_def)
  have l': "log ?st' = log st @ muts @ [Store, Redirect ''/generalsettings'']"
    by (simp add: send_redirect_def Config_store_def l)
  have c: "config ?st' k =
             (case map_of data k of None \<Rightarrow> config st k
              | Some v \<Rightarrow> if v = PNone then None else Some v)" for k
    by (simp add: send_redirect_def Config_store_def config_apply_items [OF d])
  have kinds: "\<forall>e\<in>set muts. (\<exists>k v. e = SetItem k v) \<or> (\<exists>k. e = DelItem k)"
  proof
    fix e assume "e \<in> set muts"
    with store redirect show "(\<exists>k v. e = SetItem k v) \<or> (\<exists>k. e = DelItem k)"
      by (cases e) auto
  qed
  have once: "length (filter (\<lambda>e. e = Store) (muts @ [Store, Redirect ''/generalsettings''])) = 1"
    using store by (auto simp: filter_empty_conv)
  have a: "\<forall>k. map_of data k = Some PNone \<longrightarrow>
                  config ?st' k = None
                  \<and> (DelItem k \<in> set muts \<longleftrightarrow> config st k \<noteq> None)
                  \<and> (\<forall>v. SetItem k v \<notin> set muts)"
    by (simp add: c del sets)
  have b: "\<forall>k v. map_of data k = Some v \<and> v \<noteq> PNone \<longrightarrow>
                  config ?st' k = Some v \<and> SetItem k v \<in> set muts \<and> DelItem k \<notin> set muts"
    by (simp add: c del sets)
  have n: "\<forall>k. map_of data k = None \<longrightarrow>
                  config ?st' k = config st k
                  \<and> DelItem k \<notin> set muts \<and> (\<forall>v. SetItem k v \<notin> set muts)"
    by (simp add: c del sets)
  from r l' muts_def kinds a b n once show ?thesis
    by (intro exI [of _ ?st'] exI [of _ muts] conjI)
qed

theorem processFormData_applies_delta_witness:
  "parse_sections [] example_sections
     (parse_qs no_escapes ''receiver_name=New&fft_fps=25'' True)
   = Inr [(''receiver_name'', PStr ''New''), (''receiver_asl'', PNone),
          (''fft_fps'', PInt 25), (''aprs_igate_enabled'', PNone)]
   \<and> (\<exists>st'.
         processFormData no_escapes example_sections
           (Text ''receiver_name=New&fft_fps=25'') example_state = (Inr (), st')
         \<and> log st' = [SetItem ''receiver_name'' (PStr ''New''), SetItem ''fft_fps'' (PInt 25),
                       DelItem ''aprs_igate_enabled'', Store, Redirect ''/generalsettings'']
         \<and> config st' ''receiver_name'' = Some (PStr ''New'')
         \<and> config st' ''fft_fps'' = Some (PInt 25)
         \<and> config st' ''aprs_igate_enabled'' = None
         \<and> config st' ''receiver_asl'' = None)"
proof -
  let ?data = "[(''receiver_name'', PStr ''New''), (''receiver_asl'', PNone),
                (''fft_fps'', PInt 25), (''aprs_igate_enabled'', PNone)]"
  let ?f = "\<lambda>(k, v). if v = PNone
                      then (if config example_state k \<noteq> None then [DelItem k] else [])
                      else [SetItem k v]"
  have h: "parse_sections [] example_sections
             (parse_qs no_escapes ''receiver_name=New&fft_fps=25'' True) = Inr ?data"
    by (simp add: parse_qs_defs example_defs Section_parse_def)
  from processFormData_applies_delta [OF h, of example_state]
  obtain st' muts where
    r: "processFormData no_escapes example_sections
          (Text ''receiver_name=New&fft_fps=25'') example_state = (Inr (), st')"
    and l: "log st' = log example_state @ muts @ [Store, Redirect ''/generalsettings'']"
    and m: "muts = concat (map ?f ?data)"
    and del: "\<forall>k. map_of ?data k = Some PNone \<longrightarrow>
                config st' k = None
                \<and> (DelItem k \<in> set muts \<longleftrightarrow> config example_state k \<noteq> None)
                \<and> (\<forall>v. SetItem k v \<notin> set muts)"
    and sets: "\<forall>k v. map_of ?data k = Some v \<and> v \<noteq> PNone \<longrightarrow>
                config st' k = Some v \<and> SetItem k v \<in> set muts \<and> DelItem k \<notin> set muts"
    by blast
  have "concat (map ?f ?data)
          = [SetItem ''receiver_name'' (PStr ''New''), SetItem ''fft_fps'' (PInt 25),
             DelItem ''aprs_igate_enabled'']"
    by (simp add: example_state_def)
  with l m have 0: "log st' = [SetItem ''receiver_name'' (PStr ''New''),
                               SetItem ''fft_fps'' (PInt 25),
                               DelItem ''aprs_igate_enabled'', Store,
                               Redirect ''/generalsettings'']"
    by (simp add: example_state_def)
  from sets [rule_format, of "''receiver_name''" "PStr ''New''"]
  have 1: "config st' ''receiver_name'' = Some (PStr ''New'')" by simp
  from sets [rule_format, of "''fft_fps''" "PInt 25"]
  have 2: "config st' ''fft_fps'' = Some (PInt 25)" by simp
  from del [rule_format, of "''aprs_igate_enabled''"]
  have 3: "config st' ''aprs_igate_enabled'' = None" by simp
  from del [rule_format, of "''receiver_asl''"]
  have 4: "config st' ''receiver_asl'' = None" by simp
  from r 0 1 2 3 4
  have "\<exists>st'. processFormData no_escapes example_sections
           (Text ''receiver_name=New&fft_fps=25'') example_state = (Inr (), st')
         \<and> log st' = [SetItem ''receiver_name'' (PStr ''New''), SetItem ''fft_fps'' (PInt 25),
                       DelItem ''aprs_igate_enabled'', Store, Redirect ''/generalsettings'']
         \<and> config st' ''receiver_name'' = Some (PStr ''New'')
         \<and> config st' ''fft_fps'' = Some (PInt 25)
         \<and> config st' ''aprs_igate_enabled'' = None
         \<and> config st' ''receiver_asl'' = None"
    by (intro exI [of _ st'] conjI)
  with h show ?thesis by (rule conjI)
qed

section \<open>The redirect comes last\<close>

text \<open>
  C5. When no input raises while parsing, \<^verbatim>\<open>processFormData\<close> returns normally and the
  request's log ends with \<open>Store\<close> followed by the redirect to \<^verbatim>\<open>/generalsettings\<close>; every
  entry before them is a \<open>SetItem\<close> or a \<open>DelItem\<close>, and the configuration then holds the
  whole parsed mapping. So the redirect comes after all mutations and after the store.
\<close>

theorem processFormData_redirect_after_store:
  assumes "\<forall>s\<in>set sections. \<forall>i\<in>set (inputs s). \<exists>r. parse i (parse_qs pct qs True) = Inr r"
  shows "\<exists>data st' evs.
           parse_sections [] sections (parse_qs pct qs True) = Inr data
           \<and> processFormData pct sections (Text qs) st = (Inr (), st')
           \<and> log st' = log st @ evs @ [Store, Redirect ''/generalsettings'']
           \<and> (\<forall>e\<in>set evs. (\<exists>k v. e = SetItem k v) \<or> (\<exists>k. e = DelItem k))
           \<and> (\<forall>k v. (k, v) \<in> set data \<longrightarrow> config st' k = (if v = PNone then None else Some v))"
proof -
  let ?fd = "parse_qs pct qs True"
  from assms have "\<forall>i\<in>set (concat (map inputs sections)). \<exists>r. parse i ?fd = Inr r"
    by auto
  from parse_sections_all_ok [OF this, of "[]"]
  obtain data where p: "parse_sections [] sections ?fd = Inr data" by blast
  have d: "distinct (map fst data)"
    using distinct_parse_sections [OF _ p] by simp
  from apply_items_events [OF d, of st] obtain evs where
    l: "log (apply_items data st) = log st @ evs"
    and store: "Store \<notin> set evs" and redirect: "\<forall>u. Redirect u \<notin> set evs"
    by blast
  let ?st' = "send_redirect ''/generalsettings'' (Config_store (apply_items data st))"
  have r: "processFormData pct sections (Text qs) st = (Inr (), ?st')"
    using p by (simp add: processFormData_def)
  have l': "log ?st' = log st @ evs @ [Store, Redirect ''/generalsettings'']"
    by (simp add: send_redirect_def Config_store_def l)
  have kinds: "\<forall>e\<in>set evs. (\<exists>k v. e = SetItem k v) \<or> (\<exists>k. e = DelItem k)"
  proof
    fix e assume "e \<in> set evs"
    with store redirect show "(\<exists>k v. e = SetItem k v) \<or> (\<exists>k. e = DelItem k)"
      by (cases e) auto
  qed
  have c: "\<forall>k v. (k, v) \<in> set data \<longrightarrow> config ?st' k = (if v = PNone then None else Some v)"
    using d by (simp add: send_redirect_def Config_store_def config_apply_items)
  from p r l' kinds c show ?thesis by blast
qed

theorem processFormData_redirect_after_store_witness:
  "list_all (\<lambda>s. list_all (\<lambda>i.
        \<exists>r. parse i (parse_qs no_escapes ''receiver_name=New&fft_fps=25'' True) = Inr r)
      (inputs s)) example_sections
   \<and> (\<exists>st'. processFormData no_escapes example_sections
          (Text ''receiver_name=New&fft_fps=25'') example_state = (Inr (), st')
        \<and> log st' = [SetItem ''receiver_name'' (PStr ''New''), SetItem ''fft_fps'' (PInt 25),
                      DelItem ''aprs_igate_enabled'', Store, Redirect ''/generalsettings''])"
proof -
  let ?qs = "''receiver_name=New&fft_fps=25''"
  have fd: "parse_qs no_escapes ?qs True
              = [(''receiver_name'', [''New'']), (''fft_fps'', [''25''])]"
    by (simp add: parse_qs_defs)
  have h: "\<forall>s\<in>set example_sections. \<forall>i\<in>set (inputs s).
             \<exists>r. parse i (parse_qs no_escapes ?qs True) = Inr r"
    by (simp add: parse_qs_defs example_defs)
  from processFormData_redirect_after_store [OF h, of example_state]
  obtain st' where
    r: "processFormData no_escapes example_sections (Text ?qs) example_state = (Inr (), st')"
    by blast
  have "log (snd (processFormData no_escapes example_sections (Text ?qs) example_state))
          = [SetItem ''receiver_name'' (PStr ''New''), SetItem ''fft_fps'' (PInt 25),
             DelItem ''aprs_igate_enabled'', Store, Redirect ''/generalsettings'']"
    by (simp add: processFormData_def parse_qs_defs example_defs Section_parse_def
        Config_contains_def Config_delitem_def Config_setitem_def Config_store_def
        send_redirect_def)
  with r h show ?thesis by (simp add: list_all_iff)
qed

section \<open>The deletion marker is \<open>PNone\<close> and nothing else\<close>

text \<open>
  C8. In the commit loop a key is deleted exactly when its value is \<open>PNone\<close>: for a pair
  \<open>(k, v)\<close> of the parsed mapping, a \<open>DelItem k\<close> happens only for \<open>v = PNone\<close> (and then
  only if the key was there), the key is absent afterwards iff \<open>v = PNone\<close>, and every other
  value, also \<^verbatim>\<open>False\<close>, \<^verbatim>\<open>0\<close>, the empty string and the empty list, is stored under \<open>k\<close>.
\<close>

theorem apply_items_deletes_iff_None:
  assumes "distinct (map fst data)" and "(k, v) \<in> set data"
  shows "\<exists>evs. log (apply_items data st) = log st @ evs
           \<and> (DelItem k \<in> set evs \<longleftrightarrow> v = PNone \<and> config st k \<noteq> None)
           \<and> (SetItem k v \<in> set evs \<longleftrightarrow> v \<noteq> PNone)
           \<and> (config (apply_items data st) k = None \<longleftrightarrow> v = PNone)
           \<and> (v \<noteq> PNone \<longrightarrow> config (apply_items data st) k = Some v)
           \<and> (v \<in> {PBool False, PInt 0, PStr [], PList []} \<longrightarrow>
                config (apply_items data st) k = Some v \<and> DelItem k \<notin> set evs)"
proof -
  from assms have m: "map_of data k = Some v" by simp
  from apply_items_events [OF assms(1), of st] obtain evs where
    l: "log (apply_items data st) = log st @ evs"
    and del: "\<forall>k. DelItem k \<in> set evs \<longleftrightarrow> map_of data k = Some PNone \<and> config st k \<noteq> None"
    and sets: "\<forall>k v. SetItem k v \<in> set evs \<longleftrightarrow> map_of data k = Some v \<and> v \<noteq> PNone"
    by blast
  have c: "config (apply_items data st) k = (if v = PNone then None else Some v)"
    unfolding config_apply_items [OF assms(1)] m by simp
  have 1: "DelItem k \<in> set evs \<longleftrightarrow> v = PNone \<and> config st k \<noteq> None"
    using del [rule_format, of k] unfolding m by auto
  have 2: "SetItem k v \<in> set evs \<longleftrightarrow> v \<noteq> PNone"
    using sets [rule_format, of k v] unfolding m by simp
  have 3: "config (apply_items data st) k = None \<longleftrightarrow> v = PNone"
    unfolding c by simp
  have 4: "v \<noteq> PNone \<longrightarrow> config (apply_items data st) k = Some v"
    unfolding c by simp
  have 5: "v \<in> {PBool False, PInt 0, PStr [], PList []} \<longrightarrow>
             config (apply_items data st) k = Some v \<and> DelItem k \<notin> set evs"
    unfolding c 1 by auto
  from l 1 2 3 4 5 show ?thesis by (intro exI [of _ evs] conjI)
qed


theorem apply_items_deletes_iff_None_witness:
  "distinct (map fst [(''digimodes_enable'', PBool False), (''fft_fps'', PInt 0),
                      (''receiver_name'', PStr []), (''aprs_igate_enabled'', PNone)])
   \<and> (''digimodes_enable'', PBool False)
       \<in> set [(''digimodes_enable'', PBool False), (''fft_fps'', PInt 0),
                (''receiver_name'', PStr []), (''aprs_igate_enabled'', PNone)]
   \<and> config (apply_items [(''digimodes_enable'', PBool False), (''fft_fps'', PInt 0),
                            (''receiver_name'', PStr []), (''aprs_igate_enabled'', PNone)]
                example_state) ''digimodes_enable'' = Some (PBool False)"
proof -
  let ?data = "[(''digimodes_enable'', PBool False), (''fft_fps'', PInt 0),
                (''receiver_name'', PStr []), (''aprs_igate_enabled'', PNone)]"
  have h1: "distinct (map fst ?data)" by simp
  have h2: "(''digimodes_enable'', PBool False) \<in> set ?data" by simp
  from apply_items_deletes_iff_None [OF h1 h2, of example_state]
  have "config (apply_items ?data example_state) ''digimodes_enable'' = Some (PBool False)"
    by blast
  with h1 h2 show ?thesis by (intro conjI)
qed

section \<open>Two inputs with one key\<close>

text \<open>
  C9. When several inputs return the same key, nothing raises: if every input parses,
  the merged mapping of \<^verbatim>\<open>processFormData\<close> exists and binds the key to the value of the
  last input, in the declared order of the flattened schema, that returned it. The same
  holds for \<^verbatim>\<open>Section.parse\<close> of a single section with these inputs.
\<close>

theorem parse_sections_last_input_wins:
  assumes "\<forall>j\<in>set (concat (map inputs sections)). \<exists>r. parse j data = Inr r"
    and "concat (map inputs sections) = before @ i # after"
    and "parse i data = Inr r" and "distinct (map fst r)" and "(k, v) \<in> set r"
    and "\<forall>j\<in>set after. k \<notin> fst ` set (projr (parse j data))"
  shows "(\<exists>d. parse_sections [] sections data = Inr d \<and> map_of d k = Some v)
       \<and> (\<exists>d. Section_parse (Section_init t (concat (map inputs sections))) data = Inr d
              \<and> map_of d k = Some v)"
proof -
  let ?f = "\<lambda>j. projr (parse j data)"
  let ?all = "concat (map inputs sections)"
  have items: "concat (map ?f ?all) = concat (map ?f before) @ r @ concat (map ?f after)"
    by (simp add: assms(2,3))
  have last: "map_of (rev (concat (map ?f ?all))) k = Some v"
    unfolding items using assms(4,5,6) by (rule map_of_rev_items_last)
  from parse_sections_all_ok [OF assms(1), of "[]"] obtain d
    where "parse_sections [] sections data = Inr d"
      and "map_of d = map_of [] ++ map_of (rev (concat (map ?f ?all)))"
    by blast
  with last have 1: "\<exists>d. parse_sections [] sections data = Inr d \<and> map_of d k = Some v"
    by simp
  have "Section_parse (Section_init t ?all) data = Inr (dict_update [] (concat (map ?f ?all)))"
    using parse_inputs_all_ok [OF assms(1), of "[]"]
    by (simp add: Section_parse_def Section_init_def)
  with last have 2: "\<exists>d. Section_parse (Section_init t ?all) data = Inr d \<and> map_of d k = Some v"
    by (simp add: map_of_dict_update)
  from 1 2 show ?thesis by (rule conjI)
qed

theorem parse_sections_last_input_wins_witness:
  "list_all (\<lambda>j. \<exists>r. parse j [(''fft_fps'', [''25''])] = Inr r)
     (concat (map inputs clashing_sections))
   \<and> concat (map inputs clashing_sections)
       = [example_input ''fft_fps'' NumberInput_parse]
         @ example_input ''fft_fps'' TextInput_parse # []
   \<and> parse (example_input ''fft_fps'' NumberInput_parse) [(''fft_fps'', [''25''])]
       = Inr [(''fft_fps'', PInt 25)]
   \<and> parse (example_input ''fft_fps'' TextInput_parse) [(''fft_fps'', [''25''])]
       = Inr [(''fft_fps'', PStr ''25'')]
   \<and> (\<exists>d. parse_sections [] clashing_sections [(''fft_fps'', [''25''])] = Inr d
          \<and> map_of d ''fft_fps'' = Some (PStr ''25''))"
proof -
  let ?fd = "[(''fft_fps'', [''25''])]"
  have h1: "\<forall>j\<in>set (concat (map inputs clashing_sections)). \<exists>r. parse j ?fd = Inr r"
    by (simp add: clashing_sections_def example_defs)
  have h2: "concat (map inputs clashing_sections)
       = [example_input ''fft_fps'' NumberInput_parse]
         @ example_input ''fft_fps'' TextInput_parse # []"
    by (simp add: clashing_sections_def Section_init_def)
  have h3: "parse (example_input ''fft_fps'' TextInput_parse) ?fd = Inr [(''fft_fps'', PStr ''25'')]"
    by (simp add: clashing_sections_def example_defs)
  have h3': "parse (example_input ''fft_fps'' NumberInput_parse) ?fd = Inr [(''fft_fps'', PInt 25)]"
    by (simp add: clashing_sections_def example_defs)
  have h4: "distinct (map fst [(''fft_fps'', PStr ''25'')])" by simp
  have h5: "(''fft_fps'', PStr ''25'') \<in> set [(''fft_fps'', PStr ''25'')]" by simp
  have h6: "\<forall>j\<in>set []. ''fft_fps'' \<notin> fst ` set (projr (parse j ?fd))" by simp
  from parse_sections_last_input_wins [OF h1 h2 h3 h4 h5 h6]
  have "\<exists>d. parse_sections [] clashing_sections ?fd = Inr d
          \<and> map_of d ''fft_fps'' = Some (PStr ''25'')"
    by (rule conjunct1)
  with h1 h2 h3 h3' show ?thesis by (simp add: list_all_iff)
qed

section \<open>Several invalid fields\<close>

text \<open>
  C3 (as stated, refuted). A submission with two invalid numbers, \<^verbatim>\<open>receiver_asl=high\<close> and
  \<^verbatim>\<open>fft_fps=fast\<close>: both inputs raise on the form data, and \<^verbatim>\<open>processFormData\<close> ends with
  the error of \<^verbatim>\<open>receiver_asl\<close> alone; the error of \<^verbatim>\<open>fft_fps\<close> is not reported, and the
  log stays empty, so no form was rendered.
\<close>

theorem processFormData_collects_all_errors_counterexample:
  "parse receiver_asl (parse_qs no_escapes ''receiver_asl=high&fft_fps=fast'' True)
     = Inl (ValidationError ''receiver_asl'')
   \<and> parse (example_input ''fft_fps'' NumberInput_parse)
         (parse_qs no_escapes ''receiver_asl=high&fft_fps=fast'' True)
     = Inl (ValidationError ''fft_fps'')
   \<and> processFormData no_escapes example_sections
         (Text ''receiver_asl=high&fft_fps=fast'') example_state
     = (Inl (ValidationError ''receiver_asl''), example_state)
   \<and> fst (processFormData no_escapes example_sections
         (Text ''receiver_asl=high&fft_fps=fast'') example_state)
     \<noteq> Inl (ValidationError ''fft_fps'')
   \<and> log example_state = []"
proof -
  have fd: "parse_qs no_escapes ''receiver_asl=high&fft_fps=fast'' True
              = [(''receiver_asl'', [''high'']), (''fft_fps'', [''fast''])]"
    by (simp add: parse_qs_defs)
  have 1: "parse receiver_asl [(''receiver_asl'', [''high'']), (''fft_fps'', [''fast''])]
             = Inl (ValidationError ''receiver_asl'')"
    by (simp add: example_defs)
  have 2: "parse (example_input ''fft_fps'' NumberInput_parse)
             [(''receiver_asl'', [''high'']), (''fft_fps'', [''fast''])]
             = Inl (ValidationError ''fft_fps'')"
    by (simp add: example_defs)
  have 3: "parse_sections [] example_sections
             [(''receiver_asl'', [''high'']), (''fft_fps'', [''fast''])]
             = Inl (ValidationError ''receiver_asl'')"
    by (simp add: example_defs Section_parse_def)
  have 4: "processFormData no_escapes example_sections
             (Text ''receiver_asl=high&fft_fps=fast'') example_state
             = (Inl (ValidationError ''receiver_asl''), example_state)"
    by (simp add: processFormData_def fd 3)
  have 5: "log example_state = []"
    by (simp add: example_state_def)
  show ?thesis unfolding fd 4 using 1 2 5 by simp
qed

text \<open>
  C3 (amended). The write path stops at the first input, in the declared order of the
  flattened schema, whose \<^verbatim>\<open>parse\<close> raises: that one error leaves \<^verbatim>\<open>processFormData\<close>,
  whatever the inputs after it would do, and the state (configuration and log) is the one
  before the request.
\<close>

theorem processFormData_first_error_propagates:
  assumes "concat (map inputs sections) = before @ i # after"
    and "\<forall>j\<in>set before. \<exists>r. parse j (parse_qs pct qs True) = Inr r"
    and "parse i (parse_qs pct qs True) = Inl e"
  shows "processFormData pct sections (Text qs) st = (Inl e, st)"
proof -
  have "parse_inputs [] (concat (map inputs sections)) (parse_qs pct qs True) = Inl e"
    unfolding assms(1) using assms(2,3) by (rule parse_inputs_first_error)
  then have "parse_sections [] sections (parse_qs pct qs True) = Inl e"
    by (simp only: parse_sections_error_flat)
  then show ?thesis by (simp add: processFormData_def)
qed

theorem processFormData_first_error_propagates_witness:
  "concat (map inputs example_sections)
     = [example_input ''receiver_name'' TextInput_parse]
       @ receiver_asl
       # [example_input ''fft_fps'' NumberInput_parse,
          example_input ''aprs_igate_enabled'' CheckboxInput_parse]
   \<and> list_all (\<lambda>j. \<exists>r. parse j (parse_qs no_escapes ''receiver_asl=high&fft_fps=fast'' True) = Inr r)
       [example_input ''receiver_name'' TextInput_parse]
   \<and> parse receiver_asl (parse_qs no_escapes ''receiver_asl=high&fft_fps=fast'' True)
       = Inl (ValidationError ''receiver_asl'')
   \<and> processFormData no_escapes example_sections
         (Text ''receiver_asl=high&fft_fps=fast'') example_state
       = (Inl (ValidationError ''receiver_asl''), example_state)"
proof -
  let ?fd = "parse_qs no_escapes ''receiver_asl=high&fft_fps=fast'' True"
  have h1: "concat (map inputs example_sections)
     = [example_input ''receiver_name'' TextInput_parse]
       @ receiver_asl
       # [example_input ''fft_fps'' NumberInput_parse,
          example_input ''aprs_igate_enabled'' CheckboxInput_parse]"
    by (simp add: example_sections_def receiver_information_def Section_init_def)
  have h2: "\<forall>j\<in>set [example_input ''receiver_name'' TextInput_parse]. \<exists>r. parse j ?fd = Inr r"
    by (simp add: parse_qs_defs example_defs)
  have h3: "parse receiver_asl ?fd = Inl (ValidationError ''receiver_asl'')"
    by (simp add: parse_qs_defs example_defs)
  from processFormData_first_error_propagates [OF h1 h2 h3, of example_state] h1 h2 h3
  show ?thesis by (simp only: list_all_iff simp_thms)
qed

section \<open>A schema with a key claimed twice\<close>

text \<open>
  C4 (as stated, refuted). The schema \<open>clashing_sections\<close> has two inputs that both return
  the key \<^verbatim>\<open>fft_fps\<close>. It is built by the constructor without complaint, and a request over
  it is served: \<^verbatim>\<open>processFormData\<close> returns normally and the configuration holds the value
  of the later input.
\<close>

theorem duplicate_key_rejected_counterexample:
  "map title clashing_sections = [''Waterfall settings'', ''Display settings'']
   \<and> parse (example_input ''fft_fps'' NumberInput_parse)
         (parse_qs no_escapes ''fft_fps=25'' True) = Inr [(''fft_fps'', PInt 25)]
   \<and> parse (example_input ''fft_fps'' TextInput_parse)
         (parse_qs no_escapes ''fft_fps=25'' True) = Inr [(''fft_fps'', PStr ''25'')]
   \<and> fst (processFormData no_escapes clashing_sections (Text ''fft_fps=25'') example_state)
       = Inr ()
   \<and> config (snd (processFormData no_escapes clashing_sections (Text ''fft_fps=25'')
                    example_state)) ''fft_fps''
       = Some (PStr ''25'')"
proof -
  have fd: "parse_qs no_escapes ''fft_fps=25'' True = [(''fft_fps'', [''25''])]"
    by (simp add: parse_qs_defs)
  have 0: "map title clashing_sections = [''Waterfall settings'', ''Display settings'']"
    by (simp add: clashing_sections_def Section_init_def)
  have 1: "parse (example_input ''fft_fps'' NumberInput_parse) [(''fft_fps'', [''25''])]
             = Inr [(''fft_fps'', PInt 25)]"
    by (simp add: clashing_sections_def example_defs)
  have 2: "parse (example_input ''fft_fps'' TextInput_parse) [(''fft_fps'', [''25''])]
             = Inr [(''fft_fps'', PStr ''25'')]"
    by (simp add: clashing_sections_def example_defs)
  have 3: "parse_sections [] clashing_sections [(''fft_fps'', [''25''])]
             = Inr [(''fft_fps'', PStr ''25'')]"
    by (simp add: clashing_sections_def example_defs Section_parse_def)
  have 4: "processFormData no_escapes clashing_sections (Text ''fft_fps=25'') example_state
             = (Inr (), send_redirect ''/generalsettings''
                  (Config_store (apply_items [(''fft_fps'', PStr ''25'')] example_state)))"
    by (simp add: processFormData_def fd 3)
  show ?thesis unfolding fd 4 using 0 1 2
    by (simp add: send_redirect_def Config_store_def Config_setitem_def)
qed

text \<open>
  C4 (amended). The constructor of a section keeps the title and the inputs it is given,
  whatever keys they return; nothing checks the schema. A write request over any schema,
  also one with a key returned by two inputs, returns normally whenever every input
  parses.
\<close>

theorem Section_init_accepts_any_inputs:
  "title (Section_init t is) = t \<and> inputs (Section_init t is) = is
   \<and> ((\<forall>s\<in>set sections. \<forall>i\<in>set (inputs s). \<exists>r. parse i (parse_qs pct qs True) = Inr r)
        \<longrightarrow> fst (processFormData pct sections (Text qs) st) = Inr ())"
proof (intro conjI impI)
  show "title (Section_init t is) = t" by (simp add: Section_init_def)
  show "inputs (Section_init t is) = is" by (simp add: Section_init_def)
next
  assume "\<forall>s\<in>set sections. \<forall>i\<in>set (inputs s). \<exists>r. parse i (parse_qs pct qs True) = Inr r"
  then have "\<forall>i\<in>set (concat (map inputs sections)). \<exists>r. parse i (parse_qs pct qs True) = Inr r"
    by auto
  from parse_sections_all_ok [OF this, of "[]"]
  obtain d where "parse_sections [] sections (parse_qs pct qs True) = Inr d" by blast
  then show "fst (processFormData pct sections (Text qs) st) = Inr ()"
    by (simp add: processFormData_def)
qed

theorem Section_init_accepts_any_inputs_witness:
  "list_all (\<lambda>s. list_all (\<lambda>i. \<exists>r. parse i (parse_qs no_escapes ''fft_fps=25'' True) = Inr r)
      (inputs s)) clashing_sections
   \<and> fst (processFormData no_escapes clashing_sections (Text ''fft_fps=25'') example_state)
       = Inr ()"
proof -
  have h: "\<forall>s\<in>set clashing_sections. \<forall>i\<in>set (inputs s).
             \<exists>r. parse i (parse_qs no_escapes ''fft_fps=25'' True) = Inr r"
    by (simp add: parse_qs_defs clashing_sections_def example_defs)
  from Section_init_accepts_any_inputs [of _ _ clashing_sections no_escapes "''fft_fps=25''"
      example_state] h
  have "fst (processFormData no_escapes clashing_sections (Text ''fft_fps=25'') example_state)
          = Inr ()"
    by blast
  with h show ?thesis by (simp only: list_all_iff simp_thms)
qed

section \<open>Rendering and parsing a section\<close>

text \<open>
  C7. \<^verbatim>\<open>Section.render\<close> is the template with the section's title in the heading and, in
  the place of \<^verbatim>\<open>{inputs}\<close>, the markup of the inputs concatenated in their declared
  order. \<^verbatim>\<open>Section.parse\<close>, when every input parses, returns one dictionary: its keys are
  the keys of all the inputs' results, each of its items is an item of some input's
  result, and when no key comes from two results it is the results one after another.
\<close>

theorem Section_render_parse:
  "Section_render sec cfg =
     section_open @ title sec @ section_middle
       @ concat (map (\<lambda>i. render i cfg) (inputs sec)) @ section_close
   \<and> ((\<forall>i\<in>set (inputs sec). \<exists>r. parse i data = Inr r) \<longrightarrow>
        (\<exists>d. Section_parse sec data = Inr d
           \<and> distinct (map fst d)
           \<and> fst ` set d = (\<Union>i\<in>set (inputs sec). fst ` set (projr (parse i data)))
           \<and> set d \<subseteq> (\<Union>i\<in>set (inputs sec). set (projr (parse i data)))
           \<and> (distinct (concat (map (\<lambda>i. map fst (projr (parse i data))) (inputs sec))) \<longrightarrow>
                d = concat (map (\<lambda>i. projr (parse i data)) (inputs sec)))))"
proof (intro conjI impI)
  show "Section_render sec cfg =
     section_open @ title sec @ section_middle
       @ concat (map (\<lambda>i. render i cfg) (inputs sec)) @ section_close"
    by (simp add: Section_render_def render_inputs_def)
next
  let ?items = "concat (map (\<lambda>i. projr (parse i data)) (inputs sec))"
  let ?d = "dict_update [] ?items"
  assume "\<forall>i\<in>set (inputs sec). \<exists>r. parse i data = Inr r"
  then have r: "Section_parse sec data = Inr ?d"
    unfolding Section_parse_def by (rule parse_inputs_all_ok)
  have 1: "distinct (map fst ?d)"
    by (simp add: distinct_dict_update)
  have 2: "fst ` set ?d = (\<Union>i\<in>set (inputs sec). fst ` set (projr (parse i data)))"
    by (simp add: keys_dict_update image_UN)
  have 3: "set ?d \<subseteq> (\<Union>i\<in>set (inputs sec). set (projr (parse i data)))"
    using set_dict_update [of "[]" ?items] by simp
  have 4: "distinct (concat (map (\<lambda>i. map fst (projr (parse i data))) (inputs sec))) \<longrightarrow>
             ?d = ?items"
  proof
    assume "distinct (concat (map (\<lambda>i. map fst (projr (parse i data))) (inputs sec)))"
    then have "distinct (map fst ([] @ ?items))"
      by (simp add: map_concat comp_def)
    then have "dict_update [] ?items = [] @ ?items"
      by (rule dict_update_fresh)
    then show "?d = ?items" by simp
  qed
  from r 1 2 3 4
  show "\<exists>d. Section_parse sec data = Inr d
           \<and> distinct (map fst d)
           \<and> fst ` set d = (\<Union>i\<in>set (inputs sec). fst ` set (projr (parse i data)))
           \<and> set d \<subseteq> (\<Union>i\<in>set (inputs sec). set (projr (parse i data)))
           \<and> (distinct (concat (map (\<lambda>i. map fst (projr (parse i data))) (inputs sec))) \<longrightarrow>
                d = concat (map (\<lambda>i. projr (parse i data)) (inputs sec)))"
    by (intro exI [of _ ?d] conjI)
qed

theorem Section_render_parse_witness:
  \<open>list_all (\<lambda>i. \<exists>r. parse i [(''receiver_name'', [''New'']), (''receiver_asl'', [''12''])] = Inr r)
     (inputs receiver_information)
   \<and> Section_parse receiver_information
        [(''receiver_name'', [''New'']), (''receiver_asl'', [''12''])]
      = Inr [(''receiver_name'', PStr ''New''), (''receiver_asl'', PInt 12)]
   \<and> Section_render receiver_information Map.empty
      = ''\<newline>            <div class="col-12 settings-section">''
        @ ''\<newline>                <h3 class="settings-header">''
        @ ''\<newline>                    Receiver information''
        @ ''\<newline>                </h3>''
        @ ''\<newline>                receiver_namereceiver_asl''
        @ ''\<newline>            </div>''
        @ ''\<newline>        ''\<close>
proof -
  let ?fd = "[(''receiver_name'', [''New'']), (''receiver_asl'', [''12''])]"
  have h: "\<forall>i\<in>set (inputs receiver_information). \<exists>r. parse i ?fd = Inr r"
    by (simp add: example_defs)
  have items: "concat (map (\<lambda>i. projr (parse i ?fd)) (inputs receiver_information))
                 = [(''receiver_name'', PStr ''New''), (''receiver_asl'', PInt 12)]"
    by (simp add: example_defs)
  have keys: "concat (map (\<lambda>i. map fst (projr (parse i ?fd))) (inputs receiver_information))
                 = [''receiver_name'', ''receiver_asl'']"
    by (simp add: example_defs)
  note inst = Section_render_parse [of receiver_information Map.empty ?fd]
  from inst have rendered: "Section_render receiver_information Map.empty =
     section_open @ title receiver_information @ section_middle
       @ concat (map (\<lambda>i. render i Map.empty) (inputs receiver_information)) @ section_close"
    by (rule conjunct1)
  from inst h obtain d where "Section_parse receiver_information ?fd = Inr d"
    and "distinct (concat (map (\<lambda>i. map fst (projr (parse i ?fd))) (inputs receiver_information)))
           \<longrightarrow> d = concat (map (\<lambda>i. projr (parse i ?fd)) (inputs receiver_information))"
    by blast
  then have parsed: "Section_parse receiver_information ?fd
                      = Inr [(''receiver_name'', PStr ''New''), (''receiver_asl'', PInt 12)]"
    unfolding keys items by simp
  have markup: \<open>section_open @ title receiver_information @ section_middle
       @ concat (map (\<lambda>i. render i Map.empty) (inputs receiver_information)) @ section_close
     = ''\<newline>            <div class="col-12 settings-section">''
        @ ''\<newline>                <h3 class="settings-header">''
        @ ''\<newline>                    Receiver information''
        @ ''\<newline>                </h3>''
        @ ''\<newline>                receiver_namereceiver_asl''
        @ ''\<newline>            </div>''
        @ ''\<newline>        ''\<close>
    by (simp add: section_open_def section_middle_def section_close_def receiver_information_def
        receiver_asl_def example_input_def Section_init_def)
  from h parsed rendered markup show ?thesis
    by (simp only: list_all_iff simp_thms)
qed

section \<open>Decoding comes before parsing\<close>



section \<open>Blank values are kept\<close>




end
